theory Spec2Isabelle
  imports Main
begin

section \<open>Data model of package lru\<close>

text \<open>
  The repository holds two versions of the cache: the file with \<open>Noop\<close>, \<open>ListKeys\<close>
  and the unexported \<open>removeOldest\<close> (src/unnamed/part_000), and src/lru/lru.go.
  Their \<open>Get\<close>, \<open>Remove\<close> and \<open>RemoveOldest\<close>/\<open>removeOldest\<close> bodies are the same
  statements; they differ in \<open>Set\<close> (lru.go has no \<open>return\<close> after updating an
  existing key) and in which operations take the mutex.

  A \<open>*list.Element\<close> is an address. The cache's \<open>queue\<close> (a \<open>container/list\<close> list)
  is the list of its elements' addresses, front first; \<open>elems\<close> holds each element's
  \<open>Value\<close> field, an \<open>interface{}\<close>. Go's allocator is a counter, \<open>next_elem\<close>.

  The callback \<open>onEviction\<close> is caller code: the model records each call of it, in
  order, in \<open>evicted\<close>. A failed type assertion \<open>.(*entry)\<close> panics: the operations
  that assert return an option, \<open>None\<close> for the panic.

  The mutex is not part of the state: one operation at a time is modelled, and for a
  single caller \<open>Lock\<close> on entry and the deferred \<open>Unlock\<close> change nothing.
  Keys are values of a type with HOL's equality (Go panics on a key of an unhashable
  type, and a NaN key is never found again). The callback is taken to be a function that
  returns: a \<open>nil\<close> callback, which panics when called, is outside the model.
  \<open>capacity\<close> is Go's \<open>int\<close>; it is only compared with \<open>Len()\<close>, so its width plays
  no part and it is an \<open>int\<close> here.
\<close>

type_synonym elem = nat

datatype ('k, 'v) entry = Entry (key: 'k) (val: 'v)

text \<open>What an \<open>interface{}\<close> of this package holds: Go's \<open>nil\<close>, a \<open>*entry\<close>,
  or a value the caller stored.\<close>

datatype ('k, 'v) iface = nil | EntryPtr "('k, 'v) entry" | Val 'v

record ('k, 'v) Cache =
  queue :: "elem list"
  elems :: "elem \<Rightarrow> ('k, 'v) iface"
  next_elem :: elem
  lookup :: "'k \<rightharpoonup> elem"
  capacity :: int
  evicted :: "('k \<times> 'v) list"

subsection \<open>The operations of container/list that the cache calls\<close>

text \<open>\<open>MoveToFront\<close> leaves the list alone when the element is not one of its own.\<close>

definition MoveToFront :: "elem list \<Rightarrow> elem \<Rightarrow> elem list" where
  "MoveToFront l e = (if e \<in> set l then e # remove1 e l else l)"

text \<open>\<open>l.Remove(e)\<close> unlinks \<open>e\<close> if it is an element of \<open>l\<close>.\<close>

definition list_Remove :: "elem list \<Rightarrow> elem \<Rightarrow> elem list" where
  "list_Remove l e = remove1 e l"

text \<open>\<open>PushFront\<close> allocates a new element holding the given value and links it at the
  front; it returns the element.\<close>

definition PushFront :: "('k, 'v) Cache \<Rightarrow> ('k, 'v) iface \<Rightarrow> ('k, 'v) Cache \<times> elem" where
  "PushFront c x =
     (let item = next_elem c
      in (c\<lparr>queue := item # queue c, elems := (elems c)(item := x), next_elem := Suc item\<rparr>,
          item))"

text \<open>The type assertion \<open>x.(*entry)\<close>; \<open>None\<close> is the panic.\<close>

definition as_entry :: "('k, 'v) iface \<Rightarrow> ('k, 'v) entry option" where
  "as_entry x = (case x of EntryPtr e \<Rightarrow> Some e | _ \<Rightarrow> None)"

section \<open>The cache operations\<close>

definition NewCache :: "int \<Rightarrow> ('k, 'v) Cache" where
  "NewCache cap =
     \<lparr>queue = [], elems = (\<lambda>_. nil), next_elem = 0, lookup = Map.empty,
      capacity = cap, evicted = []\<rparr>"

text \<open>\<open>removeOldest\<close> (part_000, lines 98-107); \<open>RemoveOldest\<close> of lru.go (lines 82-91)
  has the same body.\<close>

definition removeOldest ::
  "('k, 'v) Cache \<Rightarrow> (('k, 'v) Cache \<times> ('k, 'v) iface \<times> bool) option" where
  "removeOldest c =
     (if length (queue c) = 0 then Some (c, nil, False)
      else
        let tail = last (queue c);
            c1 = c\<lparr>queue := list_Remove (queue c) tail\<rparr>
        in case as_entry (elems c1 tail) of
             None \<Rightarrow> None
           | Some e \<Rightarrow>
               Some (c1\<lparr>lookup := (lookup c1)(key e := None),
                        evicted := evicted c1 @ [(key e, val e)]\<rparr>,
                     Val (val e), True))"

definition RemoveOldest ::
  "('k, 'v) Cache \<Rightarrow> (('k, 'v) Cache \<times> ('k, 'v) iface \<times> bool) option" where
  "RemoveOldest c = removeOldest c"

text \<open>\<open>Set\<close> of part_000 (lines 46-65).\<close>

definition Set :: "('k, 'v) Cache \<Rightarrow> 'k \<Rightarrow> 'v \<Rightarrow> ('k, 'v) Cache option" where
  "Set c k v =
     (case lookup c k of
        Some item \<Rightarrow>
          Some (c\<lparr>queue := MoveToFront (queue c) item,
                  elems := (elems c)(item := EntryPtr (Entry k v))\<rparr>)
      | None \<Rightarrow>
          let (c1, item) = PushFront c (EntryPtr (Entry k v));
              c2 = c1\<lparr>lookup := (lookup c1)(k \<mapsto> item)\<rparr>
          in if int (length (queue c2)) > capacity c2
             then map_option fst (removeOldest c2)
             else Some c2)"

text \<open>\<open>Set\<close> of lru.go (lines 41-59): after the update of an existing key there is no
  \<open>return\<close>, so the insertion below it runs for every key.\<close>

definition Set_lru_go :: "('k, 'v) Cache \<Rightarrow> 'k \<Rightarrow> 'v \<Rightarrow> ('k, 'v) Cache option" where
  "Set_lru_go c k v =
     (let c0 = (case lookup c k of
                  Some item \<Rightarrow>
                    c\<lparr>queue := MoveToFront (queue c) item,
                      elems := (elems c)(item := EntryPtr (Entry k v))\<rparr>
                | None \<Rightarrow> c);
          (c1, item) = PushFront c0 (EntryPtr (Entry k v));
          c2 = c1\<lparr>lookup := (lookup c1)(k \<mapsto> item)\<rparr>
      in if int (length (queue c2)) > capacity c2
         then map_option fst (RemoveOldest c2)
         else Some c2)"

text \<open>\<open>Get\<close> (part_000, lines 69-77; lru.go, lines 63-69) returns \<open>item.Value\<close>, the
  element's \<open>Value\<close> field as it is, with no type assertion.\<close>

definition Get :: "('k, 'v) Cache \<Rightarrow> 'k \<Rightarrow> ('k, 'v) Cache \<times> ('k, 'v) iface \<times> bool" where
  "Get c k =
     (case lookup c k of
        Some item \<Rightarrow> (c\<lparr>queue := MoveToFront (queue c) item\<rparr>, elems c item, True)
      | None \<Rightarrow> (c, nil, False))"

text \<open>\<open>Remove\<close> (part_000, lines 80-89; lru.go, lines 72-79).\<close>

definition Remove ::
  "('k, 'v) Cache \<Rightarrow> 'k \<Rightarrow> (('k, 'v) Cache \<times> ('k, 'v) iface \<times> bool) option" where
  "Remove c k =
     (case lookup c k of
        Some item \<Rightarrow>
          let c1 = c\<lparr>queue := list_Remove (queue c) item\<rparr>;
              c2 = c1\<lparr>lookup := (lookup c1)(k := None)\<rparr>
          in (case as_entry (elems c2 item) of
                None \<Rightarrow> None
              | Some e \<Rightarrow> Some (c2, Val (val e), True))
      | None \<Rightarrow> Some (c, nil, False))"

text \<open>\<open>ListKeys\<close> (part_000, lines 111-119): \<open>ret\<close> starts as \<open>Len\<close> nil interfaces
  (\<open>None\<close> here); the loop walks the list from the front and stores the key of the
  \<open>i\<close>-th element at index \<open>i\<close>. A store past the end of \<open>ret\<close> panics.\<close>

fun ListKeys_loop ::
  "(elem \<Rightarrow> ('k, 'v) iface) \<Rightarrow> nat \<Rightarrow> elem list \<Rightarrow> 'k option list \<Rightarrow> 'k option list option"
where
  "ListKeys_loop h i [] ret = Some ret"
| "ListKeys_loop h i (item # rest) ret =
     (case as_entry (h item) of
        None \<Rightarrow> None
      | Some e \<Rightarrow>
          if i < length ret then ListKeys_loop h (i + 1) rest (ret[i := Some (key e)])
          else None)"

definition ListKeys :: "('k, 'v) Cache \<Rightarrow> 'k option list option" where
  "ListKeys c = ListKeys_loop (elems c) 0 (queue c) (replicate (length (queue c)) None)"

section \<open>Callers: sequences of operations\<close>

text \<open>A sequence of \<open>Set\<close> calls on one cache, for each version of \<open>Set\<close>; a panic ends
  the run.\<close>

fun Sets :: "('k, 'v) Cache \<Rightarrow> ('k \<times> 'v) list \<Rightarrow> ('k, 'v) Cache option" where
  "Sets c [] = Some c"
| "Sets c ((k, v) # kvs) = (case Set c k v of None \<Rightarrow> None | Some c' \<Rightarrow> Sets c' kvs)"

fun Sets_lru_go :: "('k, 'v) Cache \<Rightarrow> ('k \<times> 'v) list \<Rightarrow> ('k, 'v) Cache option" where
  "Sets_lru_go c [] = Some c"
| "Sets_lru_go c ((k, v) # kvs) =
     (case Set_lru_go c k v of None \<Rightarrow> None | Some c' \<Rightarrow> Sets_lru_go c' kvs)"

text \<open>A call of one of the five public operations of part_000, and the cache it leaves.
  \<open>ListKeys\<close> writes no field of the cache.\<close>

datatype ('k, 'v) call =
  Set_call 'k 'v | Get_call 'k | Remove_call 'k | RemoveOldest_call | ListKeys_call

fun do_call :: "('k, 'v) Cache \<Rightarrow> ('k, 'v) call \<Rightarrow> ('k, 'v) Cache option" where
  "do_call c (Set_call k v) = Set c k v"
| "do_call c (Get_call k) = Some (fst (Get c k))"
| "do_call c (Remove_call k) = map_option fst (Remove c k)"
| "do_call c RemoveOldest_call = map_option fst (RemoveOldest c)"
| "do_call c ListKeys_call = map_option (\<lambda>_. c) (ListKeys c)"

fun do_calls :: "('k, 'v) Cache \<Rightarrow> ('k, 'v) call list \<Rightarrow> ('k, 'v) Cache option" where
  "do_calls c [] = Some c"
| "do_calls c (x # xs) = (case do_call c x of None \<Rightarrow> None | Some c' \<Rightarrow> do_calls c' xs)"

section \<open>Invariants\<close>

text \<open>The key held by a list element, and the value the cache stores for a key: the
  \<open>value\<close> field of the entry that the index entry of the key points to.\<close>

definition key_at :: "('k, 'v) Cache \<Rightarrow> elem \<Rightarrow> 'k option" where
  "key_at c e = map_option key (as_entry (elems c e))"

definition stored :: "('k, 'v) Cache \<Rightarrow> 'k \<Rightarrow> 'v option" where
  "stored c k =
     (case lookup c k of
        None \<Rightarrow> None
      | Some item \<Rightarrow> map_option val (as_entry (elems c item)))"

text \<open>What holds of every \<open>container/list\<close> list in a Go heap: an element is linked
  once, it was allocated before the next allocation, and (in this package) its
  \<open>Value\<close> is a \<open>*entry\<close>.\<close>

definition list_wf :: "('k, 'v) Cache \<Rightarrow> bool" where
  "list_wf c \<longleftrightarrow>
     distinct (queue c) \<and>
     (\<forall>e \<in> set (queue c). e < next_elem c \<and> as_entry (elems c e) \<noteq> None)"

text \<open>The invariant of the spec's data model: a key is in the index if and only if
  exactly one element of the list holds an entry with that key, the index maps the key
  to that element, and no key occurs twice in the list.\<close>

definition index_inv :: "('k, 'v) Cache \<Rightarrow> bool" where
  "index_inv c \<longleftrightarrow>
     (\<forall>k. (lookup c k \<noteq> None) = (\<exists>!e. e \<in> set (queue c) \<and> key_at c e = Some k)) \<and>
     (\<forall>k e. lookup c k = Some e \<longrightarrow> e \<in> set (queue c) \<and> key_at c e = Some k) \<and>
     distinct (map (key_at c) (queue c))"

definition cache_inv :: "('k, 'v) Cache \<Rightarrow> bool" where
  "cache_inv c \<longleftrightarrow> list_wf c \<and> index_inv c"

text \<open>The same correspondence, element by element.\<close>

definition linked :: "('k, 'v) Cache \<Rightarrow> bool" where
  "linked c \<longleftrightarrow>
     (\<forall>e \<in> set (queue c). \<exists>k. key_at c e = Some k \<and> lookup c k = Some e) \<and>
     (\<forall>k e. lookup c k = Some e \<longrightarrow> e \<in> set (queue c) \<and> key_at c e = Some k)"

text \<open>Every index entry points to a list element that holds an entry with its key: the
  half of the invariant that both versions of \<open>Set\<close> keep.\<close>

definition index_sound :: "('k, 'v) Cache \<Rightarrow> bool" where
  "index_sound c \<longleftrightarrow>
     (\<forall>k e. lookup c k = Some e \<longrightarrow> e \<in> set (queue c) \<and> key_at c e = Some k)"

text \<open>The list holds no more elements than the capacity.\<close>

definition within_capacity :: "('k, 'v) Cache \<Rightarrow> bool" where
  "within_capacity c \<longleftrightarrow> int (length (queue c)) \<le> capacity c"

text \<open>The cache after the insertion statements of \<open>Set\<close> (part_000, lines 57-61), before
  the capacity check.\<close>

definition inserted :: "('k, 'v) Cache \<Rightarrow> 'k \<Rightarrow> 'v \<Rightarrow> ('k, 'v) Cache" where
  "inserted c k v =
     c\<lparr>queue := next_elem c # queue c,
       elems := (elems c)(next_elem c := EntryPtr (Entry k v)),
       next_elem := Suc (next_elem c),
       lookup := (lookup c)(k \<mapsto> next_elem c)\<rparr>"

section \<open>Example caches\<close>

text \<open>Caches that the operations build from \<open>NewCache\<close> in the scenarios of the tests,
  written out field by field. First: capacity 2, after \<open>Set("a", "foo")\<close> and
  \<open>Set("b", "bar")\<close>.\<close>

definition cache_a_b :: "(string, string) Cache" where
  "cache_a_b =
     \<lparr>queue = [1, 0],
      elems = (\<lambda>_. nil)(0 := EntryPtr (Entry ''a'' ''foo''), 1 := EntryPtr (Entry ''b'' ''bar'')),
      next_elem = 2, lookup = [''a'' \<mapsto> 0, ''b'' \<mapsto> 1], capacity = 2, evicted = []\<rparr>"

text \<open>The cache of \<open>TestSet\<close>: capacity 1, after \<open>Set("a", "foo")\<close> and
  \<open>Set("b", "bar")\<close>; \<open>a\<close> was evicted.\<close>

definition cache_b :: "(string, string) Cache" where
  "cache_b =
     \<lparr>queue = [1],
      elems = (\<lambda>_. nil)(0 := EntryPtr (Entry ''a'' ''foo''), 1 := EntryPtr (Entry ''b'' ''bar'')),
      next_elem = 2, lookup = [''b'' \<mapsto> 1], capacity = 1, evicted = [(''a'', ''foo'')]\<rparr>"

text \<open>A cache of the given capacity that holds the one entry \<open>("a", "foo")\<close>, and what
  \<open>Set("a", "bar")\<close> of lru.go makes of it at capacity 2 and at capacity 1.\<close>

definition cache_a :: "int \<Rightarrow> (string, string) Cache" where
  "cache_a cap =
     \<lparr>queue = [0], elems = (\<lambda>_. nil)(0 := EntryPtr (Entry ''a'' ''foo'')),
      next_elem = 1, lookup = [''a'' \<mapsto> 0], capacity = cap, evicted = []\<rparr>"

definition cache_a_twice :: "(string, string) Cache" where
  "cache_a_twice =
     \<lparr>queue = [1, 0],
      elems = (\<lambda>_. nil)(0 := EntryPtr (Entry ''a'' ''bar''), 1 := EntryPtr (Entry ''a'' ''bar'')),
      next_elem = 2, lookup = [''a'' \<mapsto> 1], capacity = 2, evicted = []\<rparr>"

definition cache_a_unindexed :: "(string, string) Cache" where
  "cache_a_unindexed =
     \<lparr>queue = [1],
      elems = (\<lambda>_. nil)(0 := EntryPtr (Entry ''a'' ''bar''), 1 := EntryPtr (Entry ''a'' ''bar'')),
      next_elem = 2, lookup = Map.empty, capacity = 1, evicted = [(''a'', ''bar'')]\<rparr>"

section \<open>Lists and the two forms of the invariant\<close>

lemma MoveToFront_set: "set (MoveToFront l e) = set l"
proof (cases "e \<in> set l")
  case True
  have "set (remove1 e l) \<subseteq> set l" by (rule set_remove1_subset)
  moreover have "\<And>x. x \<in> set l \<Longrightarrow> x \<noteq> e \<Longrightarrow> x \<in> set (remove1 e l)"
    by (simp add: in_set_remove1)
  ultimately have "insert e (set (remove1 e l)) = set l" using True by blast
  then show ?thesis using True by (simp add: MoveToFront_def)
next
  case False
  then show ?thesis by (simp add: MoveToFront_def)
qed

lemma MoveToFront_distinct: "distinct l \<Longrightarrow> distinct (MoveToFront l e)"
  by (simp add: MoveToFront_def)

lemma MoveToFront_length: "length (MoveToFront l e) = length l"
  by (auto simp: MoveToFront_def length_remove1 dest: length_pos_if_in_set)

lemma remove1_last_distinct: "distinct l \<Longrightarrow> l \<noteq> [] \<Longrightarrow> remove1 (last l) l = butlast l"
  by (induction l) (auto)

lemma key_at_wf: "list_wf c \<Longrightarrow> e \<in> set (queue c) \<Longrightarrow> \<exists>k. key_at c e = Some k"
  by (auto simp: list_wf_def key_at_def)

lemma index_inv_imp_linked:
  assumes wf: "list_wf c" and inv: "index_inv c"
  shows "linked c"
proof -
  have a: "\<And>k. (lookup c k \<noteq> None) = (\<exists>!e. e \<in> set (queue c) \<and> key_at c e = Some k)"
    and b: "\<And>k e. lookup c k = Some e \<Longrightarrow> e \<in> set (queue c) \<and> key_at c e = Some k"
    using inv by (auto simp: index_inv_def)
  have d: "distinct (map (key_at c) (queue c))"
    using inv by (simp add: index_inv_def)
  have "\<exists>k. key_at c e = Some k \<and> lookup c k = Some e" if e: "e \<in> set (queue c)" for e
  proof -
    from key_at_wf[OF wf e] obtain k where k: "key_at c e = Some k" ..
    have "\<exists>!x. x \<in> set (queue c) \<and> key_at c x = Some k"
    proof (rule ex1I[of _ e])
      show "e \<in> set (queue c) \<and> key_at c e = Some k" using e k by simp
    next
      fix x assume "x \<in> set (queue c) \<and> key_at c x = Some k"
      then have "x \<in> set (queue c)" "key_at c x = key_at c e" using k by simp_all
      with d e show "x = e" by (auto simp: distinct_map dest: inj_onD)
    qed
    with a[of k] obtain e' where e': "lookup c k = Some e'" by auto
    from b[OF e'] k have "e' \<in> set (queue c)" "key_at c e' = key_at c e" by simp_all
    with d e have "e' = e" by (auto simp: distinct_map dest: inj_onD)
    with e' k show ?thesis by blast
  qed
  with b show ?thesis unfolding linked_def by blast
qed

lemma linked_imp_index_inv:
  assumes wf: "list_wf c" and l: "linked c"
  shows "index_inv c"
proof -
  have a: "\<And>e. e \<in> set (queue c) \<Longrightarrow> \<exists>k. key_at c e = Some k \<and> lookup c k = Some e"
    and b: "\<And>k e. lookup c k = Some e \<Longrightarrow> e \<in> set (queue c) \<and> key_at c e = Some k"
    using l by (auto simp: linked_def)
  have inj: "inj_on (key_at c) (set (queue c))"
  proof (rule inj_onI)
    fix x y assume "x \<in> set (queue c)" "y \<in> set (queue c)" "key_at c x = key_at c y"
    with a[of x] a[of y] show "x = y" by auto
  qed
  have d: "distinct (map (key_at c) (queue c))"
    using wf inj by (simp add: distinct_map list_wf_def)
  have "(lookup c k \<noteq> None) = (\<exists>!e. e \<in> set (queue c) \<and> key_at c e = Some k)" for k
  proof
    assume "lookup c k \<noteq> None"
    then obtain e where e: "lookup c k = Some e" by auto
    show "\<exists>!e. e \<in> set (queue c) \<and> key_at c e = Some k"
    proof (rule ex1I[of _ e])
      show "e \<in> set (queue c) \<and> key_at c e = Some k" using b[OF e] .
    next
      fix x assume "x \<in> set (queue c) \<and> key_at c x = Some k"
      with a[of x] e show "x = e" by auto
    qed
  next
    assume "\<exists>!e. e \<in> set (queue c) \<and> key_at c e = Some k"
    then obtain e where "e \<in> set (queue c)" "key_at c e = Some k" by blast
    with a[of e] show "lookup c k \<noteq> None" by auto
  qed
  with b d show ?thesis unfolding index_inv_def by blast
qed

lemma cache_inv_linked: "cache_inv c \<longleftrightarrow> list_wf c \<and> linked c"
  unfolding cache_inv_def using index_inv_imp_linked linked_imp_index_inv by blast

lemma cache_inv_NewCache: "cache_inv (NewCache cap)"
  by (simp add: cache_inv_linked list_wf_def linked_def NewCache_def)

subsection \<open>\<open>Set\<close> of part_000 keeps the invariant\<close>

lemma Set_present:
  "lookup c k = Some item \<Longrightarrow>
   Set c k v = Some (c\<lparr>queue := MoveToFront (queue c) item,
                        elems := (elems c)(item := EntryPtr (Entry k v))\<rparr>)"
  by (simp add: Set_def)

lemma update_preserves:
  assumes inv: "cache_inv c" and l: "lookup c k = Some item"
  shows "cache_inv (c\<lparr>queue := MoveToFront (queue c) item,
                      elems := (elems c)(item := EntryPtr (Entry k v))\<rparr>)"
proof -
  from inv have wf: "list_wf c" and lk: "linked c" by (simp_all add: cache_inv_linked)
  from lk l have item: "item \<in> set (queue c)" "key_at c item = Some k"
    by (auto simp: linked_def)
  let ?c = "c\<lparr>queue := MoveToFront (queue c) item,
               elems := (elems c)(item := EntryPtr (Entry k v))\<rparr>"
  have ka: "key_at ?c e = key_at c e" for e
    using item by (auto simp: key_at_def as_entry_def)
  have "list_wf ?c"
    using wf by (auto simp: list_wf_def MoveToFront_set MoveToFront_distinct as_entry_def)
  moreover have "linked ?c"
    using lk by (simp add: linked_def ka MoveToFront_set)
  ultimately show ?thesis by (simp add: cache_inv_linked)
qed

lemma bump_preserves:
  assumes inv: "cache_inv c"
  shows "cache_inv (c\<lparr>queue := MoveToFront (queue c) item\<rparr>)"
proof -
  from inv have wf: "list_wf c" and lk: "linked c" by (simp_all add: cache_inv_linked)
  let ?c = "c\<lparr>queue := MoveToFront (queue c) item\<rparr>"
  have ka: "key_at ?c e = key_at c e" for e by (simp add: key_at_def)
  have "list_wf ?c"
    using wf by (auto simp: list_wf_def MoveToFront_set MoveToFront_distinct)
  moreover have "linked ?c"
    using lk by (simp add: linked_def ka MoveToFront_set)
  ultimately show ?thesis by (simp add: cache_inv_linked)
qed

lemma Set_absent:
  "lookup c k = None \<Longrightarrow>
   Set c k v =
     (if int (length (queue c)) + 1 > capacity c then map_option fst (removeOldest (inserted c k v))
      else Some (inserted c k v))"
  by (simp add: Set_def PushFront_def inserted_def Let_def)

lemma inserted_preserves:
  assumes inv: "cache_inv c" and l: "lookup c k = None"
  shows "cache_inv (inserted c k v)"
proof -
  from inv have wf: "list_wf c" and lk: "linked c" by (simp_all add: cache_inv_linked)
  have fresh: "next_elem c \<notin> set (queue c)" using wf by (auto simp: list_wf_def)
  let ?c = "inserted c k v"
  have ka: "key_at ?c e = (if e = next_elem c then Some k else key_at c e)" for e
    by (simp add: key_at_def inserted_def as_entry_def)
  have "list_wf ?c"
    using wf fresh by (auto simp: list_wf_def inserted_def as_entry_def less_Suc_eq)
  moreover have "linked ?c"
    unfolding linked_def
  proof (intro conjI ballI allI impI)
    fix e assume "e \<in> set (queue ?c)"
    then consider "e = next_elem c" | "e \<noteq> next_elem c" "e \<in> set (queue c)"
      by (auto simp: inserted_def)
    then show "\<exists>k'. key_at ?c e = Some k' \<and> lookup ?c k' = Some e"
    proof cases
      case 1 then show ?thesis by (simp add: ka) (simp add: inserted_def)
    next
      case 2
      with lk obtain k' where k': "key_at c e = Some k'" "lookup c k' = Some e"
        by (auto simp: linked_def)
      with l have "k' \<noteq> k" by auto
      with 2 k' show ?thesis by (simp add: ka) (simp add: inserted_def)
    qed
  next
    fix k' e assume a: "lookup ?c k' = Some e"
    then consider "k' = k" "e = next_elem c" | "k' \<noteq> k" "lookup c k' = Some e"
      by (auto simp: inserted_def split: if_splits)
    then have "e \<in> set (queue ?c) \<and> key_at ?c e = Some k'"
    proof cases
      case 1 then show ?thesis by (simp add: ka) (simp add: inserted_def)
    next
      case 2
      with lk have "e \<in> set (queue c)" "key_at c e = Some k'" by (auto simp: linked_def)
      with fresh show ?thesis by (auto simp: ka) (simp add: inserted_def)
    qed
    then show "e \<in> set (queue ?c)" and "key_at ?c e = Some k'" by simp_all
  qed
  ultimately show ?thesis by (simp add: cache_inv_linked)
qed

subsection \<open>Eviction, removal, lookup and listing keep the invariant\<close>

lemma as_entry_Some: "as_entry x = Some e \<longleftrightarrow> x = EntryPtr e"
  by (cases x) (simp_all add: as_entry_def)

lemma wf_entry:
  "list_wf c \<Longrightarrow> e \<in> set (queue c) \<Longrightarrow> \<exists>k v. elems c e = EntryPtr (Entry k v)"
proof -
  assume "list_wf c" "e \<in> set (queue c)"
  then obtain en where "as_entry (elems c e) = Some en" by (auto simp: list_wf_def)
  then have "elems c e = EntryPtr en" by (simp add: as_entry_Some)
  then show ?thesis by (cases en) auto
qed

lemma key_at_evicted: "key_at (c\<lparr>evicted := x\<rparr>) = key_at c"
  by (rule ext) (simp add: key_at_def)

lemma cache_inv_evicted: "cache_inv (c\<lparr>evicted := x\<rparr>) = cache_inv c"
  by (simp add: cache_inv_def list_wf_def index_inv_def key_at_evicted)

lemma delete_preserves:
  assumes inv: "cache_inv c" and l: "lookup c k = Some item"
  shows "cache_inv (c\<lparr>queue := remove1 item (queue c), lookup := (lookup c)(k := None)\<rparr>)"
proof -
  from inv have wf: "list_wf c" and lk: "linked c" by (simp_all add: cache_inv_linked)
  from wf have d: "distinct (queue c)" by (simp add: list_wf_def)
  from lk l have item: "item \<in> set (queue c)" "key_at c item = Some k"
    by (auto simp: linked_def)
  let ?c = "c\<lparr>queue := remove1 item (queue c), lookup := (lookup c)(k := None)\<rparr>"
  have q: "set (queue ?c) = set (queue c) - {item}" using d by simp
  have ka: "key_at ?c e = key_at c e" for e by (simp add: key_at_def)
  have "list_wf ?c" using wf d by (auto simp: list_wf_def)
  moreover have "linked ?c"
    unfolding linked_def
  proof (intro conjI ballI allI impI)
    fix e assume "e \<in> set (queue ?c)"
    with q have e: "e \<in> set (queue c)" "e \<noteq> item" by auto
    with lk obtain k' where k': "key_at c e = Some k'" "lookup c k' = Some e"
      by (auto simp: linked_def)
    with l e have "k' \<noteq> k" by auto
    with k' show "\<exists>k'. key_at ?c e = Some k' \<and> lookup ?c k' = Some e"
      by (auto simp: ka)
  next
    fix k' e assume "lookup ?c k' = Some e"
    then have a: "k' \<noteq> k" "lookup c k' = Some e" by (auto split: if_splits)
    with lk have e: "e \<in> set (queue c)" "key_at c e = Some k'" by (auto simp: linked_def)
    with item a have "e \<noteq> item" by auto
    with e q show "e \<in> set (queue ?c)" and "key_at ?c e = Some k'" by (auto simp: ka)
  qed
  ultimately show ?thesis by (simp add: cache_inv_linked)
qed

lemma removeOldest_empty: "queue c = [] \<Longrightarrow> removeOldest c = Some (c, nil, False)"
  by (simp add: removeOldest_def)

lemma removeOldest_nonempty:
  assumes wf: "list_wf c" and ne: "queue c \<noteq> []"
  shows "\<exists>k v. elems c (last (queue c)) = EntryPtr (Entry k v) \<and>
           removeOldest c =
             Some (c\<lparr>queue := butlast (queue c), lookup := (lookup c)(k := None),
                     evicted := evicted c @ [(k, v)]\<rparr>, Val v, True)"
proof -
  from ne have "last (queue c) \<in> set (queue c)" by simp
  from wf_entry[OF wf this] obtain k v where kv: "elems c (last (queue c)) = EntryPtr (Entry k v)"
    by blast
  from wf ne have "remove1 (last (queue c)) (queue c) = butlast (queue c)"
    by (simp add: list_wf_def remove1_last_distinct)
  with kv ne show ?thesis
    by (simp add: removeOldest_def list_Remove_def Let_def as_entry_def)
qed

lemma removeOldest_preserves:
  assumes inv: "cache_inv c" and r: "removeOldest c = Some (c', x, ok)"
  shows "cache_inv c'"
proof (cases "queue c = []")
  case True
  with r inv show ?thesis by (simp add: removeOldest_empty)
next
  case False
  from inv have wf: "list_wf c" and lk: "linked c" by (simp_all add: cache_inv_linked)
  from removeOldest_nonempty[OF wf False] r obtain k v where
    kv: "elems c (last (queue c)) = EntryPtr (Entry k v)" and
    c': "c' = c\<lparr>queue := butlast (queue c), lookup := (lookup c)(k := None),
                 evicted := evicted c @ [(k, v)]\<rparr>"
    by auto
  from False have "last (queue c) \<in> set (queue c)" by simp
  with lk obtain k' where "key_at c (last (queue c)) = Some k'" "lookup c k' = Some (last (queue c))"
    unfolding linked_def by blast
  with kv have "lookup c k = Some (last (queue c))"
    by (simp add: key_at_def as_entry_def)
  from delete_preserves[OF inv this] wf False
  have "cache_inv (c\<lparr>queue := butlast (queue c), lookup := (lookup c)(k := None)\<rparr>)"
    by (simp add: list_wf_def remove1_last_distinct)
  then show ?thesis unfolding c' by (simp add: cache_inv_evicted)
qed

lemma removeOldest_total: "list_wf c \<Longrightarrow> \<exists>c' x ok. removeOldest c = Some (c', x, ok)"
  using removeOldest_empty[of c] removeOldest_nonempty[of c] by (cases "queue c = []") auto

lemma Set_preserves:
  assumes inv: "cache_inv c"
  shows "\<exists>c'. Set c k v = Some c' \<and> cache_inv c'"
proof (cases "lookup c k")
  case (Some item)
  with update_preserves[OF inv Some] show ?thesis by (simp add: Set_present)
next
  case None
  have i: "cache_inv (inserted c k v)" by (rule inserted_preserves[OF inv None])
  then have "list_wf (inserted c k v)" by (simp add: cache_inv_def)
  from removeOldest_total[OF this] obtain c' x ok
    where r: "removeOldest (inserted c k v) = Some (c', x, ok)" by blast
  with removeOldest_preserves[OF i r] i None show ?thesis by (simp add: Set_absent)
qed

lemma Get_absent: "lookup c k = None \<Longrightarrow> Get c k = (c, nil, False)"
  by (simp add: Get_def)

lemma Get_preserves: "cache_inv c \<Longrightarrow> cache_inv (fst (Get c k))"
  by (cases "lookup c k") (simp_all add: Get_def bump_preserves)

lemma Remove_absent: "lookup c k = None \<Longrightarrow> Remove c k = Some (c, nil, False)"
  by (simp add: Remove_def)

lemma Remove_present:
  assumes inv: "cache_inv c" and l: "lookup c k = Some item"
  shows "\<exists>v. elems c item = EntryPtr (Entry k v) \<and>
           Remove c k =
             Some (c\<lparr>queue := remove1 item (queue c), lookup := (lookup c)(k := None)\<rparr>,
                   Val v, True)"
proof -
  from inv have wf: "list_wf c" and lk: "linked c" by (simp_all add: cache_inv_linked)
  from lk l have item: "item \<in> set (queue c)" "key_at c item = Some k"
    by (auto simp: linked_def)
  from wf_entry[OF wf item(1)] item(2) obtain v where "elems c item = EntryPtr (Entry k v)"
    by (auto simp: key_at_def as_entry_def)
  with l show ?thesis by (simp add: Remove_def list_Remove_def Let_def as_entry_def)
qed

lemma Remove_preserves:
  assumes inv: "cache_inv c"
  shows "\<exists>c' x ok. Remove c k = Some (c', x, ok) \<and> cache_inv c'"
proof (cases "lookup c k")
  case None
  then have "Remove c k = Some (c, nil, False)" by (rule Remove_absent)
  with inv show ?thesis by blast
next
  case (Some item)
  from Remove_present[OF inv Some] delete_preserves[OF inv Some] show ?thesis by auto
qed

lemma ListKeys_loop_keys:
  "\<forall>e \<in> set l. as_entry (h e) \<noteq> None \<Longrightarrow> i + length l \<le> length ret \<Longrightarrow>
   ListKeys_loop h i l ret =
     Some (take i ret @ map (\<lambda>e. map_option key (as_entry (h e))) l @ drop (i + length l) ret)"
proof (induction l arbitrary: i ret)
  case Nil
  then show ?case by simp
next
  case (Cons a l)
  from Cons.prems obtain en where en: "as_entry (h a) = Some en" by auto
  from Cons.prems have i: "i < length ret" by simp
  have "ListKeys_loop h i (a # l) ret = ListKeys_loop h (i + 1) l (ret[i := Some (key en)])"
    using en i by simp
  also have "\<dots> = Some (take (i + 1) (ret[i := Some (key en)]) @
                      map (\<lambda>e. map_option key (as_entry (h e))) l @
                      drop (i + 1 + length l) (ret[i := Some (key en)]))"
    using Cons.prems by (intro Cons.IH) auto
  also have "take (i + 1) (ret[i := Some (key en)]) = take i ret @ [Some (key en)]"
    using i by (simp add: take_Suc_conv_app_nth)
  also have "drop (i + 1 + length l) (ret[i := Some (key en)]) = drop (i + length (a # l)) ret"
    by simp
  finally show ?case using en by simp
qed

lemma ListKeys_keys: "list_wf c \<Longrightarrow> ListKeys c = Some (map (key_at c) (queue c))"
  using ListKeys_loop_keys[of "queue c" "elems c" 0 "replicate (length (queue c)) None"]
  by (simp add: ListKeys_def list_wf_def key_at_def)

lemma do_call_preserves:
  assumes inv: "cache_inv c"
  shows "\<exists>c'. do_call c x = Some c' \<and> cache_inv c'"
proof (cases x)
  case (Set_call k v)
  with Set_preserves[OF inv] show ?thesis by simp
next
  case (Get_call k)
  with Get_preserves[OF inv] show ?thesis by simp
next
  case (Remove_call k)
  with Remove_preserves[OF inv, of k] show ?thesis by auto
next
  case RemoveOldest_call
  from inv have "list_wf c" by (simp add: cache_inv_def)
  from removeOldest_total[OF this] obtain c' y ok where r: "removeOldest c = Some (c', y, ok)"
    by blast
  with removeOldest_preserves[OF inv r] RemoveOldest_call show ?thesis
    by (simp add: RemoveOldest_def)
next
  case ListKeys_call
  from inv have "list_wf c" by (simp add: cache_inv_def)
  with ListKeys_keys[OF this] inv ListKeys_call show ?thesis by simp
qed

lemma do_calls_preserve:
  "cache_inv c \<Longrightarrow> \<exists>c'. do_calls c xs = Some c' \<and> cache_inv c'"
proof (induction xs arbitrary: c)
  case Nil
  then show ?case by simp
next
  case (Cons x xs)
  from do_call_preserves[OF Cons.prems] obtain c1 where c1: "do_call c x = Some c1" "cache_inv c1"
    by blast
  from Cons.IH[OF c1(2)] c1(1) show ?case by simp
qed

section \<open>The example cache\<close>

lemma cache_a_b_built: "Sets (NewCache 2) [(''a'', ''foo''), (''b'', ''bar'')] = Some cache_a_b"
  by (simp add: cache_a_b_def Set_def NewCache_def PushFront_def Let_def fun_upd_twist
      numeral_2_eq_2)

lemma cache_a_b_inv: "cache_inv cache_a_b"
  by (auto simp: cache_inv_linked list_wf_def linked_def cache_a_b_def key_at_def as_entry_def
      split: if_splits)

section \<open>ListKeys\<close>

lemma keys_of_queue:
  assumes inv: "cache_inv c"
  shows "\<exists>ks. map (key_at c) (queue c) = map Some ks \<and> distinct ks \<and> set ks = dom (lookup c)"
proof -
  from inv have wf: "list_wf c" and lk: "linked c" by (simp_all add: cache_inv_linked)
  from inv have ii: "index_inv c" by (simp add: cache_inv_def)
  define ks where "ks = map (\<lambda>e. the (key_at c e)) (queue c)"
  have m: "map (key_at c) (queue c) = map Some ks"
    unfolding ks_def using key_at_wf[OF wf] by (auto simp: map_idI)
  from ii have "distinct (map Some ks)" unfolding m[symmetric] by (simp add: index_inv_def)
  then have d: "distinct ks" by (simp add: distinct_map)
  have "set ks = dom (lookup c)"
  proof (intro set_eqI iffI)
    fix k assume "k \<in> set ks"
    then obtain e where "e \<in> set (queue c)" "k = the (key_at c e)" by (auto simp: ks_def)
    with lk show "k \<in> dom (lookup c)" unfolding linked_def by fastforce
  next
    fix k assume "k \<in> dom (lookup c)"
    then obtain e where "lookup c k = Some e" by auto
    with lk have "e \<in> set (queue c)" "key_at c e = Some k" by (auto simp: linked_def)
    then show "k \<in> set ks" unfolding ks_def by force
  qed
  with m d show ?thesis by blast
qed

lemma three_sets:
  assumes "3 \<le> cap" "distinct [a, b, d]"
  shows "\<exists>s. Sets (NewCache cap) [(a, va), (b, vb), (d, vd)] = Some s \<and>
             ListKeys s = Some [Some d, Some b, Some a]"
proof -
  from assms have "a \<noteq> b" "b \<noteq> a" "a \<noteq> d" "d \<noteq> a" "b \<noteq> d" "d \<noteq> b" by auto
  with assms(1) show ?thesis
    by (simp add: Set_def NewCache_def PushFront_def Let_def ListKeys_def as_entry_def)
qed

text \<open>
  C8. In every cache that satisfies the invariant, \<open>ListKeys\<close> returns the keys of the
  list elements in list order, front (most recently used) first: each stored key once,
  and no other. After \<open>Set(a)\<close>, \<open>Set(b)\<close>, \<open>Set(d)\<close> of three different keys on a new
  cache with room for three it returns \<open>[d, b, a]\<close>.
\<close>

theorem ListKeys_snapshot_mru_first:
  "(cache_inv c \<longrightarrow>
      (\<exists>ks. ListKeys c = Some (map Some ks) \<and> map (key_at c) (queue c) = map Some ks \<and>
            distinct ks \<and> set ks = dom (lookup c))) \<and>
   (3 \<le> cap \<and> distinct [a, b, d] \<longrightarrow>
      (\<exists>s. Sets (NewCache cap) [(a, va), (b, vb), (d, vd)] = Some s \<and>
           ListKeys s = Some [Some d, Some b, Some a]))"
proof (intro conjI impI)
  assume inv: "cache_inv c"
  then have "ListKeys c = Some (map (key_at c) (queue c))"
    by (simp add: ListKeys_keys cache_inv_def)
  with keys_of_queue[OF inv] show "\<exists>ks. ListKeys c = Some (map Some ks) \<and>
      map (key_at c) (queue c) = map Some ks \<and> distinct ks \<and> set ks = dom (lookup c)"
    by auto
next
  assume "3 \<le> cap \<and> distinct [a, b, d]"
  then show "\<exists>s. Sets (NewCache cap) [(a, va), (b, vb), (d, vd)] = Some s \<and>
      ListKeys s = Some [Some d, Some b, Some a]"
    using three_sets[of cap a b d va vb vd] by blast
qed

theorem ListKeys_snapshot_mru_first_witness:
  "cache_inv cache_a_b \<and> ListKeys cache_a_b = Some [Some ''b'', Some ''a''] \<and>
   dom (lookup cache_a_b) = {''a'', ''b''} \<and>
   (\<exists>s. Sets (NewCache 3) [(''a'', ''1''), (''b'', ''2''), (''c'', ''3'')] = Some s \<and>
        ListKeys s = Some [Some ''c'', Some ''b'', Some ''a''])"
proof -
  have l: "ListKeys cache_a_b = Some [Some ''b'', Some ''a'']"
    by (simp add: ListKeys_def cache_a_b_def as_entry_def)
  have d: "dom (lookup cache_a_b) = {''a'', ''b''}"
    by (auto simp: cache_a_b_def)
  have h: "(3::int) \<le> 3 \<and> distinct [''a'', ''b'', ''c'']" by simp
  from ListKeys_snapshot_mru_first[of cache_a_b 3 "''a''" "''b''" "''c''" "''1''" "''2''" "''3''"]
    cache_a_b_inv l d h
  show ?thesis by blast
qed

section \<open>Remove and RemoveOldest\<close>

lemma stored_present:
  "lookup c k = Some item \<Longrightarrow> elems c item = EntryPtr (Entry k' v) \<Longrightarrow> stored c k = Some v"
  by (simp add: stored_def as_entry_def)

lemma Set_lru_go_absent: "lookup c k = None \<Longrightarrow> Set_lru_go c k v = Set c k v"
  unfolding Set_lru_go_def Set_def RemoveOldest_def by simp

lemma abd_scenario:
  assumes "distinct [a, b, d]"
  shows "\<exists>s0 s1 s2 s3.
          Sets (NewCache 3) [(a, va), (b, vb), (d, vd)] = Some s0 \<and>
          Sets_lru_go (NewCache 3) [(a, va), (b, vb), (d, vd)] = Some s0 \<and>
          RemoveOldest s0 = Some (s1, Val va, True) \<and>
          RemoveOldest s1 = Some (s2, Val vb, True) \<and>
          RemoveOldest s2 = Some (s3, Val vd, True) \<and>
          evicted s3 = [(a, va), (b, vb), (d, vd)] \<and> queue s3 = []"
proof -
  from assms have "a \<noteq> b" "b \<noteq> a" "a \<noteq> d" "d \<noteq> a" "b \<noteq> d" "d \<noteq> b" by auto
  then show ?thesis
    by (simp add: Set_def Set_lru_go_def NewCache_def PushFront_def Let_def RemoveOldest_def
        removeOldest_def list_Remove_def as_entry_def)
qed

text \<open>
  C5. In a cache that satisfies the invariant, \<open>Remove(k)\<close> of a key whose index entry is
  \<open>item\<close> returns the value stored for \<open>k\<close> with \<open>true\<close>, unlinks \<open>item\<close> from the list
  (no element with key \<open>k\<close> is left), deletes \<open>k\<close> from the index and calls the eviction
  callback not at all. For a key that is not in the index it returns \<open>nil\<close> with \<open>false\<close>
  and the cache as it was. \<open>RemoveOldest\<close> on a cache whose list is not empty calls the
  callback exactly once.
\<close>

theorem Remove_returns_value_without_callback:
  "(cache_inv c \<and> lookup c k = Some item \<longrightarrow>
      (\<exists>v c'. stored c k = Some v \<and> Remove c k = Some (c', Val v, True) \<and>
          item \<in> set (queue c) \<and> queue c' = remove1 item (queue c) \<and>
          item \<notin> set (queue c') \<and> (\<forall>e \<in> set (queue c'). key_at c' e \<noteq> Some k) \<and>
          lookup c' = (lookup c)(k := None) \<and> evicted c' = evicted c)) \<and>
   (lookup c k = None \<longrightarrow> Remove c k = Some (c, nil, False)) \<and>
   (list_wf c \<and> queue c \<noteq> [] \<longrightarrow>
      (\<exists>c' x. RemoveOldest c = Some (c', x, True) \<and>
          length (evicted c') = Suc (length (evicted c))))"
proof (intro conjI impI)
  assume a: "cache_inv c \<and> lookup c k = Some item"
  then have inv: "cache_inv c" and l: "lookup c k = Some item" by simp_all
  let ?c = "c\<lparr>queue := remove1 item (queue c), lookup := (lookup c)(k := None)\<rparr>"
  from Remove_present[OF inv l] obtain v where
    v: "elems c item = EntryPtr (Entry k v)" and r: "Remove c k = Some (?c, Val v, True)"
    by blast
  from inv have wf: "list_wf c" and lk: "linked c" by (simp_all add: cache_inv_linked)
  from lk l have item: "item \<in> set (queue c)" by (auto simp: linked_def)
  from wf have d: "distinct (queue c)" by (simp add: list_wf_def)
  have "cache_inv ?c" by (rule delete_preserves[OF inv l])
  then have "linked ?c" by (simp add: cache_inv_linked)
  then have nok: "\<forall>e \<in> set (queue ?c). key_at ?c e \<noteq> Some k"
    unfolding linked_def by fastforce
  have "stored c k = Some v" using l v by (rule stored_present)
  with r item d nok
  show "\<exists>v c'. stored c k = Some v \<and> Remove c k = Some (c', Val v, True) \<and>
          item \<in> set (queue c) \<and> queue c' = remove1 item (queue c) \<and>
          item \<notin> set (queue c') \<and> (\<forall>e \<in> set (queue c'). key_at c' e \<noteq> Some k) \<and>
          lookup c' = (lookup c)(k := None) \<and> evicted c' = evicted c"
    by (intro exI[of _ v] exI[of _ ?c]) simp
next
  assume "lookup c k = None"
  then show "Remove c k = Some (c, nil, False)" by (rule Remove_absent)
next
  assume "list_wf c \<and> queue c \<noteq> []"
  then have "list_wf c" "queue c \<noteq> []" by simp_all
  from removeOldest_nonempty[OF this] show "\<exists>c' x. RemoveOldest c = Some (c', x, True) \<and>
          length (evicted c') = Suc (length (evicted c))"
    by (auto simp: RemoveOldest_def)
qed

theorem Remove_returns_value_without_callback_witness:
  "cache_inv cache_a_b \<and> lookup cache_a_b ''a'' = Some 0 \<and>
   (\<exists>c'. Remove cache_a_b ''a'' = Some (c', Val ''foo'', True) \<and> queue c' = [1] \<and>
         lookup c' ''a'' = None \<and> evicted c' = []) \<and>
   lookup cache_a_b ''z'' = None \<and> Remove cache_a_b ''z'' = Some (cache_a_b, nil, False) \<and>
   list_wf cache_a_b \<and> queue cache_a_b \<noteq> [] \<and>
   (\<exists>c' x. RemoveOldest cache_a_b = Some (c', x, True) \<and> length (evicted c') = 1)"
proof -
  have l: "lookup cache_a_b ''a'' = Some 0" "lookup cache_a_b ''z'' = None"
    by (simp_all add: cache_a_b_def)
  have s: "stored cache_a_b ''a'' = Some ''foo''"
    by (simp add: stored_def cache_a_b_def as_entry_def)
  have q: "queue cache_a_b = [1, 0]" "evicted cache_a_b = []" by (simp_all add: cache_a_b_def)
  have wf: "list_wf cache_a_b" using cache_a_b_inv by (simp add: cache_inv_def)
  from Remove_returns_value_without_callback[of cache_a_b "''a''" 0]
    Remove_returns_value_without_callback[of cache_a_b "''z''"]
    cache_a_b_inv l s q wf
  show ?thesis by auto
qed

text \<open>
  C6. On a cache whose list is not empty, \<open>RemoveOldest\<close> unlinks the back element of the
  list (the least recently used entry), deletes that entry's key from the index, calls the
  eviction callback with the entry's key and value, and returns the value with \<open>true\<close>;
  on an empty cache it returns \<open>nil\<close> with \<open>false\<close>. After \<open>Set\<close> of three different keys
  \<open>a\<close>, \<open>b\<close>, \<open>d\<close> on a new cache of capacity 3 (with either version of \<open>Set\<close>), three
  calls of \<open>RemoveOldest\<close> return the values of \<open>a\<close>, \<open>b\<close> and \<open>d\<close>, in this order.
\<close>

theorem RemoveOldest_evicts_least_recently_used:
  "(list_wf c \<and> queue c \<noteq> [] \<longrightarrow>
      (\<exists>k v c'. elems c (last (queue c)) = EntryPtr (Entry k v) \<and>
          RemoveOldest c = Some (c', Val v, True) \<and>
          queue c' = butlast (queue c) \<and> last (queue c) \<notin> set (queue c') \<and>
          lookup c' = (lookup c)(k := None) \<and> evicted c' = evicted c @ [(k, v)])) \<and>
   (queue c = [] \<longrightarrow> RemoveOldest c = Some (c, nil, False)) \<and>
   (distinct [a, b, d] \<longrightarrow>
      (\<exists>s0 s1 s2 s3.
          Sets (NewCache 3) [(a, va), (b, vb), (d, vd)] = Some s0 \<and>
          Sets_lru_go (NewCache 3) [(a, va), (b, vb), (d, vd)] = Some s0 \<and>
          RemoveOldest s0 = Some (s1, Val va, True) \<and>
          RemoveOldest s1 = Some (s2, Val vb, True) \<and>
          RemoveOldest s2 = Some (s3, Val vd, True) \<and>
          evicted s3 = [(a, va), (b, vb), (d, vd)] \<and> queue s3 = []))"
proof (intro conjI impI)
  assume "list_wf c \<and> queue c \<noteq> []"
  then have wf: "list_wf c" and ne: "queue c \<noteq> []" by simp_all
  from wf have "distinct (queue c)" by (simp add: list_wf_def)
  with ne have "last (queue c) \<notin> set (butlast (queue c))"
    by (metis append_butlast_last_id distinct_append disjoint_iff list.set_intros(1))
  with removeOldest_nonempty[OF wf ne]
  show "\<exists>k v c'. elems c (last (queue c)) = EntryPtr (Entry k v) \<and>
          RemoveOldest c = Some (c', Val v, True) \<and>
          queue c' = butlast (queue c) \<and> last (queue c) \<notin> set (queue c') \<and>
          lookup c' = (lookup c)(k := None) \<and> evicted c' = evicted c @ [(k, v)]"
    by (auto simp: RemoveOldest_def)
next
  assume "queue c = []"
  then show "RemoveOldest c = Some (c, nil, False)"
    by (simp add: RemoveOldest_def removeOldest_empty)
next
  assume "distinct [a, b, d]"
  then show "\<exists>s0 s1 s2 s3.
          Sets (NewCache 3) [(a, va), (b, vb), (d, vd)] = Some s0 \<and>
          Sets_lru_go (NewCache 3) [(a, va), (b, vb), (d, vd)] = Some s0 \<and>
          RemoveOldest s0 = Some (s1, Val va, True) \<and>
          RemoveOldest s1 = Some (s2, Val vb, True) \<and>
          RemoveOldest s2 = Some (s3, Val vd, True) \<and>
          evicted s3 = [(a, va), (b, vb), (d, vd)] \<and> queue s3 = []"
    by (rule abd_scenario)
qed

theorem RemoveOldest_evicts_least_recently_used_witness:
  "list_wf cache_a_b \<and> queue cache_a_b \<noteq> [] \<and>
   (\<exists>c'. RemoveOldest cache_a_b = Some (c', Val ''foo'', True) \<and> queue c' = [1] \<and>
         lookup c' ''a'' = None \<and> evicted c' = [(''a'', ''foo'')]) \<and>
   queue (NewCache 3 :: (string, string) Cache) = [] \<and>
   RemoveOldest (NewCache 3 :: (string, string) Cache) = Some (NewCache 3, nil, False) \<and>
   distinct [''a'', ''b'', ''c''] \<and>
   (\<exists>s0 s1 s2 s3.
       Sets (NewCache 3) [(''a'', ''a''), (''b'', ''b''), (''c'', ''c'')] = Some s0 \<and>
       RemoveOldest s0 = Some (s1, Val ''a'', True) \<and>
       RemoveOldest s1 = Some (s2, Val ''b'', True) \<and>
       RemoveOldest s2 = Some (s3, Val ''c'', True))"
proof -
  have wf: "list_wf cache_a_b" using cache_a_b_inv by (simp add: cache_inv_def)
  have q: "queue cache_a_b = [1, 0]" "evicted cache_a_b = []"
    "elems cache_a_b 0 = EntryPtr (Entry ''a'' ''foo'')"
    "lookup cache_a_b = [''a'' \<mapsto> 0, ''b'' \<mapsto> 1]"
    by (simp_all add: cache_a_b_def)
  have e: "queue (NewCache 3 :: (string, string) Cache) = []" by (simp add: NewCache_def)
  have d: "distinct [''a'', ''b'', ''c'']" by simp
  note t = RemoveOldest_evicts_least_recently_used[of cache_a_b
      "''a''" "''b''" "''c''" "''a''" "''b''" "''c''"]
  from t wf q obtain k v c' where
    "elems cache_a_b (last (queue cache_a_b)) = EntryPtr (Entry k v)"
    "RemoveOldest cache_a_b = Some (c', Val v, True)" "queue c' = butlast (queue cache_a_b)"
    "lookup c' = (lookup cache_a_b)(k := None)" "evicted c' = evicted cache_a_b @ [(k, v)]"
    by auto
  with q have 1: "\<exists>c'. RemoveOldest cache_a_b = Some (c', Val ''foo'', True) \<and> queue c' = [1] \<and>
         lookup c' ''a'' = None \<and> evicted c' = [(''a'', ''foo'')]"
    by auto
  from RemoveOldest_evicts_least_recently_used[of "NewCache 3 :: (string, string) Cache"
      "''a''" "''b''" "''c''" "''a''" "''b''" "''c''"] e
  have 2: "RemoveOldest (NewCache 3 :: (string, string) Cache) = Some (NewCache 3, nil, False)"
    by blast
  from t d have 3: "\<exists>s0 s1 s2 s3.
       Sets (NewCache 3) [(''a'', ''a''), (''b'', ''b''), (''c'', ''c'')] = Some s0 \<and>
       RemoveOldest s0 = Some (s1, Val ''a'', True) \<and>
       RemoveOldest s1 = Some (s2, Val ''b'', True) \<and>
       RemoveOldest s2 = Some (s3, Val ''c'', True)"
    by blast
  from wf q(1) 1 e 2 d 3 show ?thesis by simp
qed

section \<open>The capacity bound\<close>

lemma cache_inv_sound: "cache_inv c \<Longrightarrow> index_sound c"
  by (simp add: cache_inv_linked linked_def index_sound_def)

lemma card_index_le:
  assumes s: "index_sound c"
  shows "card (dom (lookup c)) \<le> length (queue c)"
proof -
  let ?f = "\<lambda>k. the (lookup c k)"
  have inj: "inj_on ?f (dom (lookup c))"
  proof (rule inj_onI)
    fix x y assume "x \<in> dom (lookup c)" "y \<in> dom (lookup c)" "?f x = ?f y"
    then obtain e where "lookup c x = Some e" "lookup c y = Some e" by auto
    with s have "key_at c e = Some x" "key_at c e = Some y"
      unfolding index_sound_def by blast+
    then show "x = y" by simp
  qed
  have sub: "?f ` dom (lookup c) \<subseteq> set (queue c)"
    using s by (auto simp: index_sound_def)
  have "card (dom (lookup c)) \<le> card (set (queue c))"
    using inj sub by (rule card_inj_on_le) simp
  also have "\<dots> \<le> length (queue c)" by (rule card_length)
  finally show ?thesis .
qed

lemma removeOldest_shape:
  assumes wf: "list_wf c"
  shows "\<exists>c' x ok. removeOldest c = Some (c', x, ok) \<and> capacity c' = capacity c \<and>
           list_wf c' \<and> length (queue c') = length (queue c) - 1 \<and>
           (index_sound c \<longrightarrow> index_sound c')"
proof (cases "queue c = []")
  case True
  then have "removeOldest c = Some (c, nil, False)" by (rule removeOldest_empty)
  with wf True show ?thesis
    by (intro exI[of _ c] exI[of _ nil] exI[of _ False]) simp
next
  case False
  from removeOldest_nonempty[OF wf False] obtain k v where
    kv: "elems c (last (queue c)) = EntryPtr (Entry k v)" and
    r: "removeOldest c =
          Some (c\<lparr>queue := butlast (queue c), lookup := (lookup c)(k := None),
                  evicted := evicted c @ [(k, v)]\<rparr>, Val v, True)"
    by blast
  let ?c = "c\<lparr>queue := butlast (queue c), lookup := (lookup c)(k := None),
               evicted := evicted c @ [(k, v)]\<rparr>"
  have sub: "set (butlast (queue c)) \<subseteq> set (queue c)"
    by (auto dest: in_set_butlastD)
  have wf': "list_wf ?c"
    using wf sub by (auto simp: list_wf_def distinct_butlast)
  have ka: "key_at ?c e = key_at c e" for e by (simp add: key_at_def)
  have kt: "key_at c (last (queue c)) = Some k" using kv by (simp add: key_at_def as_entry_def)
  have mem: "e \<in> set (butlast (queue c))" if "e \<in> set (queue c)" "e \<noteq> last (queue c)" for e
    using that False by (metis append_butlast_last_id in_set_conv_decomp_first 
        rotate1.simps(2) set_ConsD set_rotate1)
  have s': "index_sound ?c" if s: "index_sound c"
    unfolding index_sound_def
  proof (intro allI impI)
    fix k' e assume "lookup ?c k' = Some e"
    then have a: "k' \<noteq> k" "lookup c k' = Some e" by (auto split: if_splits)
    with s have e: "e \<in> set (queue c)" "key_at c e = Some k'" by (auto simp: index_sound_def)
    with kt a have "e \<noteq> last (queue c)" by auto
    with e mem show "e \<in> set (queue ?c) \<and> key_at ?c e = Some k'" by (simp add: ka)
  qed
  from r wf' s' show ?thesis by auto
qed

lemma update_shape:
  assumes wf: "list_wf c"
  shows "list_wf (c\<lparr>queue := MoveToFront (queue c) item,
                     elems := (elems c)(item := EntryPtr (Entry k v))\<rparr>)"
  using wf by (auto simp: list_wf_def MoveToFront_set MoveToFront_distinct as_entry_def)

lemma update_sound:
  assumes s: "index_sound c" and l: "lookup c k = Some item"
  shows "index_sound (c\<lparr>queue := MoveToFront (queue c) item,
                         elems := (elems c)(item := EntryPtr (Entry k v))\<rparr>)"
proof -
  from s l have "key_at c item = Some k" by (simp add: index_sound_def)
  then have ka: "key_at (c\<lparr>queue := MoveToFront (queue c) item,
                         elems := (elems c)(item := EntryPtr (Entry k v))\<rparr>) e = key_at c e" for e
    by (auto simp: key_at_def as_entry_def)
  from s show ?thesis by (simp add: index_sound_def ka MoveToFront_set)
qed

lemma inserted_shape:
  assumes wf: "list_wf c"
  shows "list_wf (inserted c k v)"
  using wf by (auto simp: list_wf_def inserted_def as_entry_def less_Suc_eq)

lemma inserted_sound:
  assumes wf: "list_wf c" and s: "index_sound c"
  shows "index_sound (inserted c k v)"
proof -
  have fresh: "next_elem c \<notin> set (queue c)" using wf by (auto simp: list_wf_def)
  have ka: "key_at (inserted c k v) e = (if e = next_elem c then Some k else key_at c e)" for e
    by (simp add: key_at_def inserted_def as_entry_def)
  show ?thesis
    unfolding index_sound_def
  proof (intro allI impI)
    fix k' e assume "lookup (inserted c k v) k' = Some e"
    then consider "k' = k" "e = next_elem c" | "k' \<noteq> k" "lookup c k' = Some e"
      by (auto simp: inserted_def split: if_splits)
    then show "e \<in> set (queue (inserted c k v)) \<and> key_at (inserted c k v) e = Some k'"
    proof cases
      case 1 then show ?thesis by (simp add: ka) (simp add: inserted_def)
    next
      case 2
      with s have "e \<in> set (queue c)" "key_at c e = Some k'" by (auto simp: index_sound_def)
      with fresh show ?thesis by (auto simp: ka) (simp add: inserted_def)
    qed
  qed
qed

lemma push_evict_step:
  assumes wf: "list_wf c" and s: "index_sound c" and b: "within_capacity c"
  shows "\<exists>c'. (if int (length (queue (inserted c k v))) > capacity (inserted c k v)
               then map_option fst (removeOldest (inserted c k v))
               else Some (inserted c k v)) = Some c' \<and>
              list_wf c' \<and> index_sound c' \<and> within_capacity c' \<and> capacity c' = capacity c"
proof -
  let ?i = "inserted c k v"
  have wi: "list_wf ?i" by (rule inserted_shape[OF wf])
  have si: "index_sound ?i" by (rule inserted_sound[OF wf s])
  have li: "length (queue ?i) = Suc (length (queue c))" "capacity ?i = capacity c"
    by (simp_all add: inserted_def)
  show ?thesis
  proof (cases "int (length (queue ?i)) > capacity ?i")
    case True
    from removeOldest_shape[OF wi] si obtain c' x ok where
      "removeOldest ?i = Some (c', x, ok)" "capacity c' = capacity ?i" "list_wf c'"
      "length (queue c') = length (queue ?i) - 1" "index_sound c'"
      by blast
    with True li b show ?thesis by (simp add: within_capacity_def)
  next
    case False
    with wi si li show ?thesis by (simp add: within_capacity_def)
  qed
qed

lemma Set_lru_go_unfold:
  "Set_lru_go c k v =
     (let c0 = (case lookup c k of
                  Some item \<Rightarrow>
                    c\<lparr>queue := MoveToFront (queue c) item,
                      elems := (elems c)(item := EntryPtr (Entry k v))\<rparr>
                | None \<Rightarrow> c)
      in if int (length (queue (inserted c0 k v))) > capacity (inserted c0 k v)
         then map_option fst (removeOldest (inserted c0 k v))
         else Some (inserted c0 k v))"
  unfolding Set_lru_go_def RemoveOldest_def PushFront_def inserted_def
  by (simp add: Let_def split: option.splits)

lemma Set_lru_go_step:
  assumes wf: "list_wf c" and s: "index_sound c" and b: "within_capacity c"
  shows "\<exists>c'. Set_lru_go c k v = Some c' \<and> list_wf c' \<and> index_sound c' \<and>
              within_capacity c' \<and> capacity c' = capacity c"
proof (cases "lookup c k")
  case None
  with push_evict_step[OF wf s b, of k v] show ?thesis
    by (simp add: Set_lru_go_unfold)
next
  case (Some item)
  let ?c0 = "c\<lparr>queue := MoveToFront (queue c) item,
                elems := (elems c)(item := EntryPtr (Entry k v))\<rparr>"
  have "list_wf ?c0" by (rule update_shape[OF wf])
  moreover have "index_sound ?c0" by (rule update_sound[OF s Some])
  moreover have "within_capacity ?c0" using b by (simp add: within_capacity_def MoveToFront_length)
  ultimately have "\<exists>c'. (if int (length (queue (inserted ?c0 k v))) > capacity (inserted ?c0 k v)
               then map_option fst (removeOldest (inserted ?c0 k v))
               else Some (inserted ?c0 k v)) = Some c' \<and>
              list_wf c' \<and> index_sound c' \<and> within_capacity c' \<and> capacity c' = capacity ?c0"
    by (rule push_evict_step)
  with Some show ?thesis by (simp add: Set_lru_go_unfold Let_def)
qed

lemma Set_absent_inserted:
  "lookup c k = None \<Longrightarrow>
   Set c k v =
     (if int (length (queue (inserted c k v))) > capacity (inserted c k v)
      then map_option fst (removeOldest (inserted c k v))
      else Some (inserted c k v))"
  by (simp add: Set_def PushFront_def inserted_def Let_def)

lemma Set_step:
  assumes inv: "cache_inv c" and b: "within_capacity c"
  shows "\<exists>c'. Set c k v = Some c' \<and> cache_inv c' \<and> within_capacity c' \<and>
              capacity c' = capacity c"
proof (cases "lookup c k")
  case (Some item)
  with update_preserves[OF inv Some, of v] b show ?thesis
    by (simp add: Set_present within_capacity_def MoveToFront_length)
next
  case None
  from inv have wf: "list_wf c" by (simp add: cache_inv_def)
  from push_evict_step[OF wf cache_inv_sound[OF inv] b, of k v] None
  obtain c' where c': "Set c k v = Some c'" "within_capacity c'" "capacity c' = capacity c"
    by (auto simp: Set_absent_inserted)
  from Set_preserves[OF inv, of k v] c' show ?thesis by auto
qed

lemma Sets_run:
  "cache_inv c \<Longrightarrow> within_capacity c \<Longrightarrow>
   \<exists>c'. Sets c kvs = Some c' \<and> cache_inv c' \<and> within_capacity c' \<and> capacity c' = capacity c"
proof (induction kvs arbitrary: c)
  case Nil
  then show ?case by simp
next
  case (Cons kv kvs)
  obtain k v where kv: "kv = (k, v)" by (cases kv)
  from Set_step[OF Cons.prems, of k v] obtain c1 where
    c1: "Set c k v = Some c1" "cache_inv c1" "within_capacity c1" "capacity c1 = capacity c"
    by blast
  from Cons.IH[OF c1(2,3)] c1(1,4) kv show ?case by auto
qed

lemma Sets_lru_go_run:
  "list_wf c \<Longrightarrow> index_sound c \<Longrightarrow> within_capacity c \<Longrightarrow>
   \<exists>c'. Sets_lru_go c kvs = Some c' \<and> list_wf c' \<and> index_sound c' \<and> within_capacity c' \<and>
        capacity c' = capacity c"
proof (induction kvs arbitrary: c)
  case Nil
  then show ?case by simp
next
  case (Cons kv kvs)
  obtain k v where kv: "kv = (k, v)" by (cases kv)
  from Set_lru_go_step[OF Cons.prems, of k v] obtain c1 where
    c1: "Set_lru_go c k v = Some c1" "list_wf c1" "index_sound c1" "within_capacity c1"
      "capacity c1 = capacity c"
    by blast
  from Cons.IH[OF c1(2,3,4)] c1(1,5) kv show ?case by auto
qed

lemma NewCache_within: "0 \<le> cap \<Longrightarrow> within_capacity (NewCache cap)"
  by (simp add: within_capacity_def NewCache_def)

lemma NewCache_capacity: "capacity (NewCache cap) = cap"
  by (simp add: NewCache_def)

text \<open>
  C2. On a cache made by \<open>NewCache\<close> with a positive capacity, after every call of a
  sequence of \<open>Set\<close> calls (every prefix \<open>take n kvs\<close> of the sequence) the call has
  returned, the capacity is the one given at construction, and the list holds at most
  that many elements and the index at most that many keys. This holds for \<open>Set\<close> of
  part_000 and for \<open>Set\<close> of lru.go.
\<close>

theorem capacity_bound_after_each_Set:
  assumes "0 < cap"
  shows "(\<exists>c. Sets (NewCache cap) (take n kvs) = Some c \<and> capacity c = cap \<and>
             int (length (queue c)) \<le> cap \<and> int (card (dom (lookup c))) \<le> cap) \<and>
         (\<exists>c. Sets_lru_go (NewCache cap) (take n kvs) = Some c \<and> capacity c = cap \<and>
             int (length (queue c)) \<le> cap \<and> int (card (dom (lookup c))) \<le> cap)"
proof
  from assms have w: "within_capacity (NewCache cap :: ('a, 'b) Cache)"
    by (simp add: NewCache_within)
  have i: "cache_inv (NewCache cap :: ('a, 'b) Cache)" by (rule cache_inv_NewCache)
  from Sets_run[OF i w, of "take n kvs"] obtain c where
    c: "Sets (NewCache cap) (take n kvs) = Some c" "cache_inv c" "within_capacity c"
      "capacity c = cap"
    by (auto simp: NewCache_capacity)
  from card_index_le[OF cache_inv_sound[OF c(2)]] c(3,4)
  have "int (card (dom (lookup c))) \<le> cap" by (simp add: within_capacity_def)
  with c show "\<exists>c. Sets (NewCache cap) (take n kvs) = Some c \<and> capacity c = cap \<and>
             int (length (queue c)) \<le> cap \<and> int (card (dom (lookup c))) \<le> cap"
    by (auto simp: within_capacity_def)
  from i have wf: "list_wf (NewCache cap :: ('a, 'b) Cache)" by (simp add: cache_inv_def)
  from Sets_lru_go_run[OF wf cache_inv_sound[OF i] w, of "take n kvs"] obtain c where
    c: "Sets_lru_go (NewCache cap) (take n kvs) = Some c" "index_sound c" "within_capacity c"
      "capacity c = cap"
    by (auto simp: NewCache_capacity)
  from card_index_le[OF c(2)] c(3,4)
  have "int (card (dom (lookup c))) \<le> cap" by (simp add: within_capacity_def)
  with c show "\<exists>c. Sets_lru_go (NewCache cap) (take n kvs) = Some c \<and> capacity c = cap \<and>
             int (length (queue c)) \<le> cap \<and> int (card (dom (lookup c))) \<le> cap"
    by (auto simp: within_capacity_def)
qed

theorem capacity_bound_after_each_Set_witness:
  "(0::int) < 1 \<and>
   (\<exists>c. Sets (NewCache 1) (take 2 [(''a'', ''foo''), (''b'', ''bar'')]) = Some c \<and>
        capacity c = 1 \<and> int (length (queue c)) \<le> 1 \<and> int (card (dom (lookup c))) \<le> 1) \<and>
   (\<exists>c. Sets_lru_go (NewCache 1) (take 2 [(''a'', ''foo''), (''b'', ''bar'')]) = Some c \<and>
        capacity c = 1 \<and> int (length (queue c)) \<le> 1 \<and> int (card (dom (lookup c))) \<le> 1)"
proof -
  have h: "(0::int) < 1" by simp
  from capacity_bound_after_each_Set[OF h, of 2 "[(''a'', ''foo''), (''b'', ''bar'')]"] h
  show ?thesis by blast
qed

section \<open>Caches reached by public calls\<close>

lemma do_call_step:
  assumes inv: "cache_inv c" and b: "within_capacity c"
  shows "\<exists>c'. do_call c x = Some c' \<and> cache_inv c' \<and> within_capacity c' \<and>
              capacity c' = capacity c"
proof -
  from do_call_preserves[OF inv, of x] obtain c' where
    c': "do_call c x = Some c'" "cache_inv c'" by blast
  from inv have wf: "list_wf c" by (simp add: cache_inv_def)
  have "length (queue c') \<le> length (queue c) \<or> within_capacity c'"
    and "capacity c' = capacity c"
  proof (atomize (full), cases x)
    case (Set_call k v)
    with Set_step[OF inv b, of k v] c'(1) show
      "(length (queue c') \<le> length (queue c) \<or> within_capacity c') \<and> capacity c' = capacity c"
      by auto
  next
    case (Get_call k)
    with c'(1) show
      "(length (queue c') \<le> length (queue c) \<or> within_capacity c') \<and> capacity c' = capacity c"
      by (auto simp: Get_def MoveToFront_length split: option.splits)
  next
    case (Remove_call k)
    show "(length (queue c') \<le> length (queue c) \<or> within_capacity c') \<and> capacity c' = capacity c"
    proof (cases "lookup c k")
      case None
      with Remove_call c'(1) show ?thesis by (simp add: Remove_absent)
    next
      case (Some item)
      from Remove_present[OF inv Some] Remove_call c'(1) show ?thesis
        by (auto simp: length_remove1)
    qed
  next
    case RemoveOldest_call
    with removeOldest_shape[OF wf] c'(1) show
      "(length (queue c') \<le> length (queue c) \<or> within_capacity c') \<and> capacity c' = capacity c"
      by (auto simp: RemoveOldest_def)
  next
    case ListKeys_call
    with c'(1) show
      "(length (queue c') \<le> length (queue c) \<or> within_capacity c') \<and> capacity c' = capacity c"
      by auto
  qed
  with b have "within_capacity c'" "capacity c' = capacity c"
    by (auto simp: within_capacity_def)
  with c' show ?thesis by blast
qed

lemma do_calls_run:
  "cache_inv c \<Longrightarrow> within_capacity c \<Longrightarrow>
   \<exists>c'. do_calls c xs = Some c' \<and> cache_inv c' \<and> within_capacity c' \<and>
        capacity c' = capacity c"
proof (induction xs arbitrary: c)
  case Nil
  then show ?case by simp
next
  case (Cons x xs)
  from do_call_step[OF Cons.prems, of x] obtain c1 where
    c1: "do_call c x = Some c1" "cache_inv c1" "within_capacity c1" "capacity c1 = capacity c"
    by blast
  from Cons.IH[OF c1(2,3)] c1(1,4) show ?case by auto
qed

lemma reached_from_NewCache:
  assumes "0 \<le> cap"
  shows "\<exists>c. do_calls (NewCache cap) xs = Some c \<and> cache_inv c \<and> within_capacity c \<and>
             capacity c = cap"
  using do_calls_run[OF cache_inv_NewCache NewCache_within[OF assms], of xs]
  by (simp add: NewCache_capacity)

text \<open>
  C10. Let \<open>c\<close> be a cache reached from \<open>NewCache 0\<close> by any calls of the public
  operations. Its list and index are empty, so no key is present; \<open>Set c k v\<close> inserts
  the entry (the list is then the one new element, holding \<open>(k, v)\<close>) and runs
  \<open>removeOldest\<close> on that cache, which evicts this element: the callback is called with
  exactly \<open>(k, v)\<close>, once, and list and index are empty afterwards.
\<close>

theorem capacity_zero_Set_evicts_the_inserted_entry:
  assumes r: "do_calls (NewCache 0) xs = Some c"
  shows "queue c = [] \<and> lookup c k = None \<and>
         Set c k v = map_option fst (removeOldest (inserted c k v)) \<and>
         queue (inserted c k v) = [next_elem c] \<and>
         lookup (inserted c k v) k = Some (next_elem c) \<and>
         elems (inserted c k v) (next_elem c) = EntryPtr (Entry k v) \<and>
         (\<exists>c'. Set c k v = Some c' \<and> queue c' = [] \<and> lookup c' = Map.empty \<and>
               evicted c' = evicted c @ [(k, v)])"
proof -
  from reached_from_NewCache[of 0 xs] r
  have inv: "cache_inv c" and b: "within_capacity c" and cap: "capacity c = 0"
    by auto
  from b cap have q: "queue c = []" by (simp add: within_capacity_def)
  from cache_inv_sound[OF inv] q have l: "lookup c = Map.empty"
    by (auto simp: index_sound_def)
  have s: "Set c k v = map_option fst (removeOldest (inserted c k v))"
    using l cap q by (simp add: Set_absent_inserted) (simp add: inserted_def)
  have i: "queue (inserted c k v) = [next_elem c]"
    "lookup (inserted c k v) k = Some (next_elem c)"
    "elems (inserted c k v) (next_elem c) = EntryPtr (Entry k v)"
    using q by (simp_all add: inserted_def)
  have "\<exists>c'. Set c k v = Some c' \<and> queue c' = [] \<and> lookup c' = Map.empty \<and>
               evicted c' = evicted c @ [(k, v)]"
    unfolding s using q l
    by (simp add: removeOldest_def inserted_def list_Remove_def as_entry_def Let_def)
  with q l s i show ?thesis by simp
qed

theorem capacity_zero_Set_evicts_the_inserted_entry_witness:
  "do_calls (NewCache 0) [Set_call ''a'' ''foo'', Get_call ''a'', RemoveOldest_call] =
     Some ((NewCache 0)\<lparr>next_elem := 1,
             elems := (\<lambda>_. nil)(0 := EntryPtr (Entry ''a'' ''foo'')),
             evicted := [(''a'', ''foo'')]\<rparr>) \<and>
   (\<exists>c'. Set ((NewCache 0)\<lparr>next_elem := 1,
                 elems := (\<lambda>_. nil)(0 := EntryPtr (Entry ''a'' ''foo'')),
                 evicted := [(''a'', ''foo'')]\<rparr>) ''b'' ''bar'' = Some c' \<and>
         queue c' = [] \<and> lookup c' = Map.empty \<and>
         evicted c' = [(''a'', ''foo''), (''b'', ''bar'')])"
proof -
  let ?c = "(NewCache 0)\<lparr>next_elem := 1,
              elems := (\<lambda>_. nil)(0 := EntryPtr (Entry ''a'' ''foo'')),
              evicted := [(''a'', ''foo'')]\<rparr> :: (string, string) Cache"
  have r: "do_calls (NewCache 0) [Set_call ''a'' ''foo'', Get_call ''a'', RemoveOldest_call] =
     Some ?c"
    by (simp add: Set_def Get_def RemoveOldest_def removeOldest_def NewCache_def PushFront_def
        list_Remove_def as_entry_def Let_def)
  from capacity_zero_Set_evicts_the_inserted_entry[OF r, of "''b''" "''bar''"]
  have "\<exists>c'. Set ?c ''b'' ''bar'' = Some c' \<and> queue c' = [] \<and> lookup c' = Map.empty \<and>
         evicted c' = evicted ?c @ [(''b'', ''bar'')]"
    by blast
  then have "\<exists>c'. Set ?c ''b'' ''bar'' = Some c' \<and> queue c' = [] \<and> lookup c' = Map.empty \<and>
         evicted c' = [(''a'', ''foo''), (''b'', ''bar'')]"
    by simp
  with r show ?thesis by blast
qed

section \<open>Recency\<close>

text \<open>
  C7. On a new cache of capacity 2 and for three different keys: after \<open>Set(a)\<close>,
  \<open>Set(b)\<close> the order is \<open>[b, a]\<close>; \<open>Get(a)\<close> finds \<open>a\<close> and makes the order \<open>[a, b]\<close>
  with no callback call; \<open>Set(d)\<close> then calls the callback once, with the entry of \<open>b\<close>,
  and leaves \<open>[d, a]\<close>. Without the \<open>Get\<close>, the same \<open>Set(d)\<close> evicts \<open>a\<close>.
\<close>

theorem Get_promotes_a_so_Set_evicts_b:
  assumes "distinct [a, b, d]"
  shows "\<exists>s2 s3 x s4.
           Sets (NewCache 2) [(a, va), (b, vb)] = Some s2 \<and>
           ListKeys s2 = Some [Some b, Some a] \<and>
           Get s2 a = (s3, x, True) \<and>
           ListKeys s3 = Some [Some a, Some b] \<and> evicted s3 = [] \<and>
           Set s3 d vd = Some s4 \<and>
           evicted s4 = [(b, vb)] \<and> lookup s4 b = None \<and> lookup s4 a \<noteq> None \<and>
           ListKeys s4 = Some [Some d, Some a] \<and>
           (\<exists>t. Set s2 d vd = Some t \<and> evicted t = [(a, va)])"
proof -
  from assms have "a \<noteq> b" "b \<noteq> a" "a \<noteq> d" "d \<noteq> a" "b \<noteq> d" "d \<noteq> b" by auto
  then show ?thesis
    by (simp add: Set_def Get_def NewCache_def PushFront_def Let_def ListKeys_def
        removeOldest_def list_Remove_def MoveToFront_def as_entry_def)
qed

theorem Get_promotes_a_so_Set_evicts_b_witness:
  "distinct [''a'', ''b'', ''c''] \<and>
   (\<exists>s2 s3 x s4.
       Sets (NewCache 2) [(''a'', ''foo''), (''b'', ''foo'')] = Some s2 \<and>
       Get s2 ''a'' = (s3, x, True) \<and>
       Set s3 ''c'' ''foo'' = Some s4 \<and>
       evicted s4 = [(''b'', ''foo'')] \<and> lookup s4 ''b'' = None \<and>
       ListKeys s4 = Some [Some ''c'', Some ''a''])"
proof -
  have d: "distinct [''a'', ''b'', ''c'']" by simp
  from Get_promotes_a_so_Set_evicts_b[OF d, of "''foo''" "''foo''" "''foo''"] d
  show ?thesis by blast
qed

section \<open>Get\<close>

lemma Get_present_inv:
  assumes inv: "cache_inv c" and l: "lookup c k = Some item"
  shows "\<exists>v. stored c k = Some v \<and> item \<in> set (queue c) \<and>
             Get c k = (c\<lparr>queue := item # remove1 item (queue c)\<rparr>, EntryPtr (Entry k v), True)"
proof -
  from inv have wf: "list_wf c" and lk: "linked c" by (simp_all add: cache_inv_linked)
  from lk l have item: "item \<in> set (queue c)" "key_at c item = Some k"
    by (auto simp: linked_def)
  from wf_entry[OF wf item(1)] item(2) obtain v where v: "elems c item = EntryPtr (Entry k v)"
    by (auto simp: key_at_def as_entry_def)
  from l v have "stored c k = Some v" by (rule stored_present)
  with l v item show ?thesis by (simp add: Get_def MoveToFront_def)
qed

text \<open>
  C1. What \<open>Get\<close> returns for a present key is the element's \<open>Value\<close>, a \<open>*entry\<close>, and
  not the value stored for the key (\<open>Get_present_inv\<close>: the key is found and its element
  moves to the front; \<open>Get_absent\<close>: an absent key leaves the cache as it was). On the cache of the spec's
  end-to-end scenario, capacity 1 after \<open>Set("a", "foo")\<close> and \<open>Set("b", "bar")\<close>, the
  value stored for \<open>"b"\<close> is \<open>"bar"\<close> and \<open>Get("b")\<close> returns the pointer to the entry
  \<open>("b", "bar")\<close> with \<open>true\<close>.
\<close>

theorem Get_returns_the_entry_pointer:
  "Sets (NewCache 1) [(''a'', ''foo''), (''b'', ''bar'')] = Some cache_b \<and>
   stored cache_b ''b'' = Some ''bar'' \<and>
   Get cache_b ''b'' = (cache_b, EntryPtr (Entry ''b'' ''bar''), True) \<and>
   Get cache_b ''b'' \<noteq> (cache_b, Val ''bar'', True)"
proof -
  have "Sets (NewCache 1) [(''a'', ''foo''), (''b'', ''bar'')] = Some cache_b"
    by (simp add: cache_b_def Set_def NewCache_def PushFront_def Let_def removeOldest_def
        list_Remove_def as_entry_def fun_upd_twist fun_eq_iff)
  moreover have "stored cache_b ''b'' = Some ''bar''"
    by (simp add: stored_def cache_b_def as_entry_def)
  moreover have "Get cache_b ''b'' = (cache_b, EntryPtr (Entry ''b'' ''bar''), True)"
    by (simp add: Get_def cache_b_def MoveToFront_def)
  ultimately show ?thesis by simp
qed

section \<open>Set of an existing key\<close>

lemma Set_keeps_key:
  assumes inv: "cache_inv c" and cap: "1 \<le> capacity c" and s: "Set c k v = Some c1"
  shows "lookup c1 k \<noteq> None \<and> stored c1 k = Some v"
proof (cases "lookup c k")
  case (Some item)
  with s show ?thesis by (auto simp: Set_present stored_def as_entry_def)
next
  case None
  from inv have wf: "list_wf c" and lk: "linked c" by (simp_all add: cache_inv_linked)
  let ?i = "inserted c k v"
  have st: "lookup ?i k = Some (next_elem c)" "stored ?i k = Some v"
    by (simp_all add: inserted_def stored_def as_entry_def)
  show ?thesis
  proof (cases "int (length (queue ?i)) > capacity ?i")
    case False
    with None s st show ?thesis by (simp add: Set_absent_inserted)
  next
    case True
    with cap have ne: "queue c \<noteq> []" by (auto simp: inserted_def)
    have wi: "list_wf ?i" by (rule inserted_shape[OF wf])
    have nei: "queue ?i \<noteq> []" by (simp add: inserted_def)
    from removeOldest_nonempty[OF wi nei] obtain kt vt where
      kt: "elems ?i (last (queue ?i)) = EntryPtr (Entry kt vt)" and
      r: "removeOldest ?i =
            Some (?i\<lparr>queue := butlast (queue ?i), lookup := (lookup ?i)(kt := None),
                     evicted := evicted ?i @ [(kt, vt)]\<rparr>, Val vt, True)"
      by blast
    from ne have la: "last (queue ?i) = last (queue c)" by (simp add: inserted_def)
    with ne have mem: "last (queue ?i) \<in> set (queue c)" by simp
    with wf have "last (queue ?i) \<noteq> next_elem c" by (auto simp: list_wf_def)
    with kt have "elems c (last (queue ?i)) = EntryPtr (Entry kt vt)"
      by (simp add: inserted_def)
    then have "key_at c (last (queue ?i)) = Some kt" by (simp add: key_at_def as_entry_def)
    with lk mem have "lookup c kt \<noteq> None" unfolding linked_def by fastforce
    with None have "kt \<noteq> k" by auto
    with True None s r st show ?thesis
      by (auto simp: Set_absent_inserted stored_def)
  qed
qed

lemma Set_twice_updates_in_place:
  assumes inv: "cache_inv c" and cap: "1 \<le> capacity c"
  shows "\<exists>c1 c2 item.
           Set c k v1 = Some c1 \<and> Set c1 k v2 = Some c2 \<and> cache_inv c2 \<and>
           (\<exists>!e. e \<in> set (queue c2) \<and> key_at c2 e = Some k) \<and>
           lookup c2 k = Some item \<and> stored c2 k = Some v2 \<and>
           queue c2 \<noteq> [] \<and> hd (queue c2) = item \<and>
           evicted c2 = evicted c1"
proof -
  from Set_preserves[OF inv, of k v1] obtain c1 where
    c1: "Set c k v1 = Some c1" "cache_inv c1" by blast
  from Set_keeps_key[OF inv cap c1(1)] obtain item where l1: "lookup c1 k = Some item" by auto
  let ?c2 = "c1\<lparr>queue := MoveToFront (queue c1) item,
                elems := (elems c1)(item := EntryPtr (Entry k v2))\<rparr>"
  have s2: "Set c1 k v2 = Some ?c2" using l1 by (rule Set_present)
  have inv2: "cache_inv ?c2" by (rule update_preserves[OF c1(2) l1])
  from c1(2) l1 have mem: "item \<in> set (queue c1)" by (auto simp: cache_inv_linked linked_def)
  have l2: "lookup ?c2 k = Some item" using l1 by simp
  from inv2 have "index_inv ?c2" by (simp add: cache_inv_def)
  with l2 have u: "\<exists>!e. e \<in> set (queue ?c2) \<and> key_at ?c2 e = Some k"
    unfolding index_inv_def by (metis option.distinct(1))
  have st: "stored ?c2 k = Some v2" using l1 by (simp add: stored_def as_entry_def)
  have h: "queue ?c2 \<noteq> []" "hd (queue ?c2) = item" using mem by (simp_all add: MoveToFront_def)
  from c1(1) s2 inv2 u l2 st h show ?thesis
    by (intro exI[of _ c1] exI[of _ ?c2] exI[of _ item]) simp
qed

lemma cache_a_inv: "cache_inv (cache_a cap)"
  by (auto simp: cache_inv_linked list_wf_def linked_def cache_a_def key_at_def as_entry_def
      split: if_splits)

lemma cache_a_twice_not_inv: "\<not> index_inv cache_a_twice"
  by (simp add: index_inv_def cache_a_twice_def key_at_def as_entry_def)

text \<open>
  C3. The public operations of part_000 keep the invariant (\<open>do_call_preserves\<close>).
  \<open>Set\<close> of lru.go does not: on the cache that holds \<open>("a", "foo")\<close>, which satisfies the
  invariant, \<open>Set("a", "bar")\<close> updates the element of \<open>a\<close> and then inserts a second
  element with the same key, so the list holds the key \<open>a\<close> twice. \<open>Set\<close> of part_000 on
  the same cache updates the one element.
\<close>

theorem lru_go_Set_duplicates_the_key:
  "Set_lru_go (NewCache 2) ''a'' ''foo'' = Some (cache_a 2) \<and>
   Set_lru_go (cache_a 2) ''a'' ''bar'' = Some cache_a_twice \<and>
   map (key_at cache_a_twice) (queue cache_a_twice) = [Some ''a'', Some ''a''] \<and>
   \<not> distinct (map (key_at cache_a_twice) (queue cache_a_twice)) \<and>
   Set (cache_a 2) ''a'' ''bar'' =
     Some ((cache_a 2)\<lparr>elems := (\<lambda>_. nil)(0 := EntryPtr (Entry ''a'' ''bar''))\<rparr>)"
proof -
  have "Set_lru_go (NewCache 2) ''a'' ''foo'' = Some (cache_a 2)"
    by (simp add: cache_a_def Set_lru_go_def NewCache_def PushFront_def Let_def)
  moreover have "Set_lru_go (cache_a 2) ''a'' ''bar'' = Some cache_a_twice"
    by (simp add: cache_a_def cache_a_twice_def Set_lru_go_def PushFront_def Let_def
        MoveToFront_def fun_upd_twist)
  moreover have "map (key_at cache_a_twice) (queue cache_a_twice) = [Some ''a'', Some ''a'']"
    by (simp add: cache_a_twice_def key_at_def as_entry_def)
  moreover have "Set (cache_a 2) ''a'' ''bar'' =
     Some ((cache_a 2)\<lparr>elems := (\<lambda>_. nil)(0 := EntryPtr (Entry ''a'' ''bar''))\<rparr>)"
    by (simp add: cache_a_def Set_def MoveToFront_def)
  ultimately show ?thesis by simp
qed

text \<open>
  C4. \<open>Set\<close> of part_000 updates in place (\<open>Set_twice_updates_in_place\<close>). With \<open>Set\<close>
  of lru.go on a new cache of capacity 1, \<open>Set("a", "foo")\<close> and then \<open>Set("a", "bar")\<close>:
  the second call inserts a second element, exceeds the capacity, and evicts the back
  element, the updated old one; the eviction callback is called with \<open>("a", "bar")\<close> and
  the key \<open>a\<close> is deleted from the index, so that \<open>Get("a")\<close> finds nothing although
  the list still holds an entry for \<open>a\<close>.
\<close>

theorem lru_go_Set_twice_evicts_and_unindexes:
  "Set_lru_go (NewCache 1) ''a'' ''foo'' = Some (cache_a 1) \<and>
   Set_lru_go (cache_a 1) ''a'' ''bar'' = Some cache_a_unindexed \<and>
   evicted cache_a_unindexed = [(''a'', ''bar'')] \<and>
   lookup cache_a_unindexed ''a'' = None \<and>
   Get cache_a_unindexed ''a'' = (cache_a_unindexed, nil, False) \<and>
   map (key_at cache_a_unindexed) (queue cache_a_unindexed) = [Some ''a'']"
proof -
  have "Set_lru_go (NewCache 1) ''a'' ''foo'' = Some (cache_a 1)"
    by (simp add: cache_a_def Set_lru_go_def NewCache_def PushFront_def Let_def)
  moreover have "Set_lru_go (cache_a 1) ''a'' ''bar'' = Some cache_a_unindexed"
    by (simp add: cache_a_def cache_a_unindexed_def Set_lru_go_def PushFront_def Let_def
        MoveToFront_def RemoveOldest_def removeOldest_def list_Remove_def as_entry_def
        fun_upd_twist fun_eq_iff)
  moreover have "Get cache_a_unindexed ''a'' = (cache_a_unindexed, nil, False)"
    by (simp add: Get_def cache_a_unindexed_def)
  moreover have "map (key_at cache_a_unindexed) (queue cache_a_unindexed) = [Some ''a'']"
    by (simp add: cache_a_unindexed_def key_at_def as_entry_def)
  ultimately show ?thesis by (simp add: cache_a_unindexed_def)
qed

end
